theory Spec2Isabelle
  imports Main "HOL-Library.AList" "HOL-Library.Word"
begin

section \<open>The data model of keep.go\<close>

text \<open>
  Times are readings of Go's monotonic clock in nanoseconds, durations are
  nanoseconds (\<^verbatim>\<open>time.Duration\<close>); both are unbounded integers here, the
  64-bit range of the clock being centuries away from the values compared.
  A reply channel (\<^verbatim>\<open>chan<- []byte\<close>) is identified by a number; a byte
  slice is a list of 8-bit words. The counter \<^verbatim>\<open>count\<close> is Go's \<^verbatim>\<open>int\<close>,
  a 64-bit word whose increment wraps. Writes to standard output
  (\<^verbatim>\<open>fmt.Printf\<close>) are left out of the model.
\<close>

type_synonym time = int
type_synonym duration = int
type_synonym chan = nat
type_synonym bytes = "8 word list"

record EntryInfo =
  path :: string
  count :: "64 word"
  lastFetched :: time
  fetching :: bool

record entry =
  info :: EntryInfo
  waiters :: "chan list"

datatype keepMessage =
    requestKeepMessage string
  | fetchingKeepMessage string chan
  | fetchedKeepMessage string "bytes option"

fun Path :: "keepMessage \<Rightarrow> string" where
  "Path (requestKeepMessage p) = p"
| "Path (fetchingKeepMessage p w) = p"
| "Path (fetchedKeepMessage p d) = p"

text \<open>
  The entry table \<^verbatim>\<open>map[string]*entry\<close> is an association list with
  distinct keys, read with \<open>map_of\<close> and written with \<open>AList.update\<close>; a
  \<^verbatim>\<open>range\<close> loop visits it in list order. Go visits a map in an order of
  its own choosing. The two loops of the scheduler do not depend on it: the
  sweep treats every entry on its own (\<open>fetchExpired_table\<close>,
  \<open>fetchExpired_launched_set\<close>) and the timeout is a function of the set of
  entries (\<open>shortestTimeout_set\<close>).
\<close>

type_synonym table = "(string \<times> entry) list"

record Keep =
  entries :: table
  timer :: "duration option"

text \<open>
  What the actor does to the world outside its own fields: it closes a reply
  channel, sends a byte slice on one, or starts \<^verbatim>\<open>go k.fetch(path, nil)\<close>.
  The second argument of \<open>GoFetch\<close> is the response writer handed to the
  fetch (\<open>None\<close> is \<^verbatim>\<open>nil\<close>). An event records that the actor performs
  the operation; the other end of a channel (a receiver that takes the
  value, a channel that is still open) belongs to the caller that made it.
\<close>

datatype event =
    ChanClose chan
  | ChanSend chan bytes
  | GoFetch string "nat option"

datatype error = PanicNotFetching

text \<open>
  \<^verbatim>\<open>time.Now()\<close> is the \<open>n\<close>-th reading of a clock \<open>clk\<close>; every function
  that reads the clock takes the number of readings made so far and returns
  the new number.
\<close>

type_synonym clock = "nat \<Rightarrow> time"

definition NewKeep :: Keep where
  "NewKeep = \<lparr>entries = [], timer = None\<rparr>"

section \<open>Processing one message (the message case of \<^verbatim>\<open>Keep.run\<close>)\<close>

text \<open>
  Lines 205 to 243 of keep.go. \<open>lookup_entry\<close> is the lookup of lines 206 to
  212: an entry that is missing is made with the current clock reading as
  \<open>lastFetched\<close>. The panic of line 226 is the result \<open>Inl\<close>; it leaves before
  the entry is stored. Otherwise the result is the table after line 243, the
  number of clock readings and the channel operations in the order made.
\<close>

definition new_entry :: "string \<Rightarrow> time \<Rightarrow> entry" where
  "new_entry p now =
     \<lparr>info = \<lparr>path = p, count = 0, lastFetched = now, fetching = False\<rparr>, waiters = []\<rparr>"

definition lookup_entry :: "clock \<Rightarrow> nat \<Rightarrow> string \<Rightarrow> table \<Rightarrow> entry \<times> nat" where
  "lookup_entry clk n p es =
     (case map_of es p of
        Some e \<Rightarrow> (e, n)
      | None \<Rightarrow> (new_entry p (clk n), Suc n))"

definition deliver :: "bytes option \<Rightarrow> chan \<Rightarrow> event" where
  "deliver d w = (case d of Some b \<Rightarrow> ChanSend w b | None \<Rightarrow> ChanClose w)"

definition handle_message ::
  "clock \<Rightarrow> nat \<Rightarrow> keepMessage \<Rightarrow> table \<Rightarrow> error + (table \<times> nat \<times> event list)" where
  "handle_message clk n msg es =
     (case lookup_entry clk n (Path msg) es of (e, n1) \<Rightarrow>
        (case msg of
           requestKeepMessage p \<Rightarrow>
             Inr (AList.update (Path msg) (e\<lparr>info := (info e)\<lparr>count := count (info e) + 1\<rparr>\<rparr>) es,
                  n1, [])
         | fetchingKeepMessage p w \<Rightarrow>
             if fetching (info e)
             then Inr (AList.update (Path msg) (e\<lparr>waiters := waiters e @ [w]\<rparr>) es, n1, [])
             else Inr (AList.update (Path msg) (e\<lparr>info := (info e)\<lparr>fetching := True\<rparr>\<rparr>) es,
                       n1, [ChanClose w])
         | fetchedKeepMessage p d \<Rightarrow>
             if \<not> fetching (info e) then Inl PanicNotFetching
             else Inr (AList.update (Path msg)
                         (e\<lparr>info := (info e)\<lparr>lastFetched := clk n1, fetching := False\<rparr>,
                            waiters := []\<rparr>) es,
                       Suc n1, map (deliver d) (waiters e))))"

section \<open>The expiry scheduler\<close>

text \<open>
  \<^verbatim>\<open>fetchExpired\<close> and \<^verbatim>\<open>shortestTimeout\<close> read the clock once, at their
  start; the reading is their first argument. \<^verbatim>\<open>t.Before(u)\<close> is \<open>t < u\<close>,
  \<^verbatim>\<open>t.Add(d)\<close> is \<open>t + d\<close> and \<^verbatim>\<open>t.Sub(u)\<close> is \<open>t - u\<close>.
\<close>

definition expireDuration :: duration where
  "expireDuration = 10 * 1000000000"

fun fetchExpired :: "time \<Rightarrow> table \<Rightarrow> table \<times> event list" where
  "fetchExpired now [] = ([], [])"
| "fetchExpired now ((p, e) # es) =
     (case fetchExpired now es of (es', launched) \<Rightarrow>
        if fetching (info e) then ((p, e) # es', launched)
        else if lastFetched (info e) + expireDuration < now
        then ((p, e\<lparr>info := (info e)\<lparr>fetching := True\<rparr>\<rparr>) # es',
              GoFetch (path (info e)) None # launched)
        else ((p, e) # es', launched))"

fun earliest_loop :: "table \<Rightarrow> time \<times> bool \<Rightarrow> time \<times> bool" where
  "earliest_loop [] acc = acc"
| "earliest_loop ((p, e) # es) (earliest, expiring) =
     (if fetching (info e) then earliest_loop es (earliest, expiring)
      else if lastFetched (info e) < earliest
      then earliest_loop es (lastFetched (info e), True)
      else earliest_loop es (earliest, expiring))"

definition shortestTimeout :: "time \<Rightarrow> table \<Rightarrow> duration \<times> bool" where
  "shortestTimeout now es =
     (case earliest_loop es (now, False) of (earliest, expiring) \<Rightarrow>
        if earliest + expireDuration < now then (0, expiring)
        else (earliest + expireDuration - now, expiring))"

text \<open>
  The loop of \<^verbatim>\<open>serviceTimer\<close>. Each iteration reads the clock twice, once in
  \<^verbatim>\<open>fetchExpired\<close> and once in \<^verbatim>\<open>shortestTimeout\<close>. The result is the
  table, the timer, the number of clock readings and the fetches started;
  \<open>None\<close> is a loop that never returns.
\<close>

partial_function (option) serviceLoop ::
  "clock \<Rightarrow> nat \<Rightarrow> table \<Rightarrow> event list \<Rightarrow> (table \<times> duration option \<times> nat \<times> event list) option" where
  "serviceLoop clk n es tr =
     (case fetchExpired (clk n) es of (es', launched) \<Rightarrow>
        (case shortestTimeout (clk (Suc n)) es' of (d, expiring) \<Rightarrow>
           if \<not> expiring then Some (es', None, n + 2, tr @ launched)
           else if d > 0 then Some (es', Some d, n + 2, tr @ launched)
           else serviceLoop clk (n + 2) es' (tr @ launched)))"

declare serviceLoop.simps [code]

definition serviceTimer ::
  "clock \<Rightarrow> nat \<Rightarrow> Keep \<Rightarrow> (Keep \<times> nat \<times> event list) option" where
  "serviceTimer clk n k =
     (if timer k \<noteq> None then Some (k, n, [])
      else (case serviceLoop clk n (entries k) [] of
              None \<Rightarrow> None
            | Some (es', t, n', tr) \<Rightarrow> Some (\<lparr>entries = es', timer = t\<rparr>, n', tr)))"

section \<open>The actor loop\<close>

text \<open>
  One turn of the \<^verbatim>\<open>select\<close> in \<^verbatim>\<open>Keep.run\<close> receives a message or the
  firing of the timer; the timer case can only be taken while a timer is
  armed, a receive from the \<^verbatim>\<open>nil\<close> channel never completing. A turn ends
  with a call of \<^verbatim>\<open>serviceTimer\<close>. The actor's state is its \<open>Keep\<close>, the
  number of clock readings made and the events emitted so far. The inputs
  are a finite prefix of what the actor receives; \<open>Done\<close> is the actor back
  at its \<^verbatim>\<open>select\<close>. The model lets an armed timer fire at any moment, so
  what is proved of every run holds of the runs in which it fires on time.
\<close>

datatype input = Message keepMessage | TimerFired

record actor =
  keep :: Keep
  ticks :: nat
  trace :: "event list"

datatype 'a outcome = Done 'a | Panics error | Hangs

definition after_service :: "clock \<Rightarrow> nat \<Rightarrow> Keep \<Rightarrow> event list \<Rightarrow> actor outcome" where
  "after_service clk n k tr =
     (case serviceTimer clk n k of
        None \<Rightarrow> Hangs
      | Some (k', n', launched) \<Rightarrow> Done \<lparr>keep = k', ticks = n', trace = tr @ launched\<rparr>)"

definition run_step :: "clock \<Rightarrow> input \<Rightarrow> actor \<Rightarrow> actor outcome" where
  "run_step clk inp st =
     (case inp of
        Message msg \<Rightarrow>
          (case handle_message clk (ticks st) msg (entries (keep st)) of
             Inl err \<Rightarrow> Panics err
           | Inr (es', n', evs) \<Rightarrow>
               after_service clk n' ((keep st)\<lparr>entries := es'\<rparr>) (trace st @ evs))
      | TimerFired \<Rightarrow>
          (case timer (keep st) of
             None \<Rightarrow> Hangs
           | Some d \<Rightarrow> after_service clk (ticks st) ((keep st)\<lparr>timer := None\<rparr>) (trace st)))"

fun run_loop :: "clock \<Rightarrow> input list \<Rightarrow> actor \<Rightarrow> actor outcome" where
  "run_loop clk [] st = Done st"
| "run_loop clk (inp # inps) st =
     (case run_step clk inp st of
        Done st' \<Rightarrow> run_loop clk inps st'
      | Panics err \<Rightarrow> Panics err
      | Hangs \<Rightarrow> Hangs)"

definition run :: "clock \<Rightarrow> Keep \<Rightarrow> input list \<Rightarrow> actor outcome" where
  "run clk k inps =
     (case after_service clk 0 k [] of
        Done st \<Rightarrow> run_loop clk inps st
      | Panics err \<Rightarrow> Panics err
      | Hangs \<Rightarrow> Hangs)"

section \<open>The fetch executor\<close>

text \<open>
  \<^verbatim>\<open>Keep.fetch\<close> talks to the upstream origin, to the response writer and to
  the cache store. What those answer is an input of the model:
  whether \<^verbatim>\<open>http.NewRequest\<close> fails, what \<^verbatim>\<open>http.DefaultClient.Do\<close>
  returns (\<open>None\<close> is an error), and for a response the value of its
  \<^verbatim>\<open>Content-Type\<close> header, the bytes \<^verbatim>\<open>io.Copy\<close> moved to the writer and
  whether \<^verbatim>\<open>io.Copy\<close> returned an error.
\<close>

record response =
  contentType :: string
  body :: bytes
  copyFails :: bool

record upstream =
  newRequestFails :: bool
  doResult :: "response option"

datatype fetch_error = RequestConstructionError | RequestError

datatype fetch_event =
    HttpError nat string nat
  | WriteHeader nat nat
  | SinkWrite nat bytes
  | GoCacheSet string bytes
  | SendMessage keepMessage

definition sendFetchedMessage :: "string \<Rightarrow> bytes option \<Rightarrow> fetch_event" where
  "sendFetchedMessage p d = SendMessage (fetchedKeepMessage p d)"

text \<open>\<^verbatim>\<open>strings.Split(s, ";")[0]\<close>: the part of \<open>s\<close> before its first semicolon.\<close>

definition split_first :: "string \<Rightarrow> string" where
  "split_first s = takeWhile (\<lambda>c. c \<noteq> CHR '';'') s"

text \<open>
  The body of \<^verbatim>\<open>fetch\<close> up to its \<^verbatim>\<open>return\<close>: the error returned, the
  value of \<^verbatim>\<open>dataPtr\<close> at that moment, and the events so far.
\<close>

definition fetch_body ::
  "upstream \<Rightarrow> string \<Rightarrow> nat option \<Rightarrow> fetch_error option \<times> bytes option \<times> fetch_event list" where
  "fetch_body up p responseWriter =
     (if newRequestFails up then (Some RequestConstructionError, None, [])
      else case doResult up of
        None \<Rightarrow> (Some RequestError, None, [])
      | Some resp \<Rightarrow>
          if split_first (contentType resp) \<noteq> ''application/json''
          then (None, None,
                case responseWriter of
                  None \<Rightarrow> []
                | Some w \<Rightarrow> [HttpError w ''Endpoint does not return JSON'' 400])
          else
            (let copying = (case responseWriter of
                              None \<Rightarrow> []
                            | Some w \<Rightarrow> [WriteHeader w 200, SinkWrite w (body resp)])
             in if copyFails resp then (None, None, copying)
                else (None, Some (body resp), copying @ [GoCacheSet p (body resp)])))"

text \<open>The deferred call runs at every return, with \<^verbatim>\<open>dataPtr\<close> as it is then.\<close>

definition fetch :: "upstream \<Rightarrow> string \<Rightarrow> nat option \<Rightarrow> fetch_error option \<times> fetch_event list" where
  "fetch up p responseWriter =
     (case fetch_body up p responseWriter of
        (err, dataPtr, evs) \<Rightarrow> (err, evs @ [sendFetchedMessage p dataPtr]))"

text \<open>The messages a run of \<^verbatim>\<open>fetch\<close> puts on the actor's channel, in order.\<close>

fun sent_messages :: "fetch_event list \<Rightarrow> keepMessage list" where
  "sent_messages [] = []"
| "sent_messages (SendMessage m # evs) = m # sent_messages evs"
| "sent_messages (ev # evs) = sent_messages evs"

text \<open>
  \<open>copy_succeeds up b\<close>: the fetch reaches \<^verbatim>\<open>io.Copy\<close>, the copy returns no
  error, and \<open>b\<close> is what it put into the buffer.
\<close>

definition copy_succeeds :: "upstream \<Rightarrow> bytes \<Rightarrow> bool" where
  "copy_succeeds up b =
     (\<not> newRequestFails up \<and>
      (case doResult up of
         None \<Rightarrow> False
       | Some resp \<Rightarrow>
           split_first (contentType resp) = ''application/json'' \<and> \<not> copyFails resp
           \<and> body resp = b))"

section \<open>Notions used to state the scheduler's properties\<close>

text \<open>
  \<open>overdue now e\<close> is the test of the sweep as \<^verbatim>\<open>fetchExpired\<close> writes it:
  the entry is not fetching and \<^verbatim>\<open>lastFetched.Add(expireDuration).Before(now)\<close>.
\<close>

definition overdue :: "time \<Rightarrow> entry \<Rightarrow> bool" where
  "overdue now e = (\<not> fetching (info e) \<and> lastFetched (info e) + expireDuration < now)"

definition mark_fetching :: "entry \<Rightarrow> entry" where
  "mark_fetching e = e\<lparr>info := (info e)\<lparr>fetching := True\<rparr>\<rparr>"

definition sweep_entry :: "time \<Rightarrow> entry \<Rightarrow> entry" where
  "sweep_entry now e = (if overdue now e then mark_fetching e else e)"

text \<open>The entries that are not fetching: those a sweep may still pick up.\<close>

definition waiting :: "table \<Rightarrow> (string \<times> entry) list" where
  "waiting es = filter (\<lambda>(p, e). \<not> fetching (info e)) es"

text \<open>
  \<open>swept e e'\<close>: \<open>e'\<close> is \<open>e\<close>, or \<open>e\<close> with its flag raised by a sweep;
  \<open>swept_table\<close> lifts this to tables with the same keys in the same order.
\<close>

definition swept :: "entry \<Rightarrow> entry \<Rightarrow> bool" where
  "swept e e' = (e' = e \<or> (\<not> fetching (info e) \<and> e' = mark_fetching e))"

definition swept_table :: "table \<Rightarrow> table \<Rightarrow> bool" where
  "swept_table es es' = list_all2 (\<lambda>(p, e) (p', e'). p' = p \<and> swept e e') es es'"


text \<open>\<open>loops_back now es\<close>: \<^verbatim>\<open>serviceTimer\<close> goes round its loop once more.\<close>

definition loops_back :: "time \<Rightarrow> table \<Rightarrow> bool" where
  "loops_back now es = (case shortestTimeout now es of (d, expiring) \<Rightarrow> expiring \<and> \<not> 0 < d)"

text \<open>
  What the specification says of every iteration of the scheduler pass, for
  an iteration that reads the clock as \<open>t1\<close> in the sweep and as \<open>t2\<close> in
  the deadline computation: it arms a future timer or finds nothing
  eligible (the two ways the loop returns), or it leaves fewer entries not
  fetching than it found.
\<close>

definition iteration_progress :: "time \<Rightarrow> time \<Rightarrow> table \<Rightarrow> bool" where
  "iteration_progress t1 t2 es =
     (case fetchExpired t1 es of (es', launched) \<Rightarrow>
        (case shortestTimeout t2 es' of (d, expiring) \<Rightarrow>
           (expiring \<and> 0 < d) \<or> \<not> expiring \<or> length (waiting es') < length (waiting es)))"

text \<open>An entry that is not fetching has no waiters.\<close>

definition waiters_inv :: "table \<Rightarrow> bool" where
  "waiters_inv es = (\<forall>(p, e) \<in> set es. \<not> fetching (info e) \<longrightarrow> waiters e = [])"

text \<open>No entry of the table was fetched later than the \<open>n\<close>-th clock reading.\<close>

definition read_before :: "clock \<Rightarrow> nat \<Rightarrow> table \<Rightarrow> bool" where
  "read_before clk n es = (\<forall>(p, e) \<in> set es. lastFetched (info e) \<le> clk n)"

text \<open>
  From table \<open>es\<close> to table \<open>es'\<close> every entry is still there, its
  \<open>lastFetched\<close> has not decreased, and it has changed only if the inputs
  hold a \<open>fetched\<close> message for its path.
\<close>

definition lastFetched_advances :: "input list \<Rightarrow> table \<Rightarrow> table \<Rightarrow> bool" where
  "lastFetched_advances inps es es' =
     (\<forall>q e. map_of es q = Some e \<longrightarrow>
        (\<exists>e'. map_of es' q = Some e'
           \<and> lastFetched (info e) \<le> lastFetched (info e')
           \<and> (lastFetched (info e') \<noteq> lastFetched (info e)
                \<longrightarrow> (\<exists>d. Message (fetchedKeepMessage q d) \<in> set inps))))"

section \<open>Concrete tables and clocks\<close>

definition follower_entry :: entry where
  "follower_entry =
     \<lparr>info = \<lparr>path = ''/a'', count = 1, lastFetched = 5, fetching = True\<rparr>, waiters = [2, 3]\<rparr>"

definition follower_table :: table where
  "follower_table = [(''/a'', follower_entry)]"

definition html_upstream :: upstream where
  "html_upstream =
     \<lparr>newRequestFails = False,
      doResult = Some \<lparr>contentType = ''text/html; charset=utf-8'', body = [1, 2], copyFails = False\<rparr>\<rparr>"

text \<open>One entry, made at time 0 and never fetched since.\<close>

definition boundary_table :: table where
  "boundary_table = [(''/a'', new_entry ''/a'' 0)]"

text \<open>
  Two entries whose deadlines are 5 microseconds apart, the earlier one being
  fetched by a leader.
\<close>

definition two_entry_table :: table where
  "two_entry_table =
     [(''/a'', \<lparr>info = \<lparr>path = ''/a'', count = 1, lastFetched = 0, fetching = True\<rparr>,
               waiters = []\<rparr>),
      (''/b'', \<lparr>info = \<lparr>path = ''/b'', count = 1, lastFetched = 5000, fetching = False\<rparr>,
               waiters = []\<rparr>)]"

text \<open>A clock that advances by a millisecond every eighth reading.\<close>

definition coarse_clock :: clock where
  "coarse_clock n = 1000000 * int (n div 8)"

text \<open>A clock that advances by a microsecond from each reading to the next.\<close>

definition fine_clock :: clock where
  "fine_clock n = 1000 * int n"


text \<open>
  A leader and a follower for \<open>/a\<close>, then the leader's result; the state
  before the result arrives and the state after it.
\<close>

definition coalescing_inputs :: "input list" where
  "coalescing_inputs =
     [Message (requestKeepMessage ''/a''),
      Message (fetchingKeepMessage ''/a'' 1),
      Message (fetchingKeepMessage ''/a'' 2),
      Message (fetchedKeepMessage ''/a'' (Some [1, 2, 3]))]"

definition fetching_state :: actor where
  "fetching_state =
     \<lparr>keep = \<lparr>entries = [(''/a'', \<lparr>info = \<lparr>path = ''/a'', count = 1, lastFetched = 2000,
                                             fetching = True\<rparr>,
                                     waiters = [2]\<rparr>)],
              timer = Some 9999998000\<rparr>,
      ticks = 5, trace = [ChanClose 1]\<rparr>"

definition coalesced_state :: actor where
  "coalesced_state =
     \<lparr>keep = \<lparr>entries = [(''/a'', \<lparr>info = \<lparr>path = ''/a'', count = 1, lastFetched = 5000,
                                             fetching = False\<rparr>,
                                     waiters = []\<rparr>)],
              timer = Some 9999998000\<rparr>,
      ticks = 6, trace = [ChanClose 1, ChanSend 2 [1, 2, 3]]\<rparr>"

text \<open>
  A clock that advances by a microsecond from each reading to the next and
  jumps from its fifth reading to 10.000002 seconds: the sixth reading is
  the deadline of an entry made at the third.
\<close>

definition deadline_clock :: clock where
  "deadline_clock n = (if n < 5 then 1000 * int n else 10000002000 + 1000 * (int n - 5))"

text \<open>The entry \<open>/a\<close> made by a \<open>request\<close> at the third reading of that clock.\<close>

definition armed_table :: table where
  "armed_table =
     [(''/a'', \<lparr>info = \<lparr>path = ''/a'', count = 1, lastFetched = 2000, fetching = False\<rparr>,
               waiters = []\<rparr>)]"

definition marked_table :: table where
  "marked_table =
     [(''/a'', \<lparr>info = \<lparr>path = ''/a'', count = 1, lastFetched = 2000, fetching = True\<rparr>,
               waiters = []\<rparr>)]"

section \<open>The table as a map\<close>

lemma map_of_update_same: "map_of (AList.update p e es) p = Some e"
  by (simp add: update_conv')

lemma map_of_update_other: "q \<noteq> p \<Longrightarrow> map_of (AList.update p e es) q = map_of es q"
  by (simp add: update_conv')

section \<open>Messages\<close>

text \<open>
  C1. A \<open>fetching(path, replyChannel)\<close> message for a path that has no entry
  makes one, fetched at the current clock reading, sets its \<open>fetching\<close> and
  closes the reply channel, sending nothing on it. For a path whose entry in
  the table is not fetching, the actor sets \<open>fetching\<close> and closes the reply
  channel likewise. For a path whose entry is fetching already, the actor
  appends the channel to the end of the entry's waiters and emits no event,
  so the channel stays open. No other entry changes.
\<close>

theorem fetching_message_leader_or_follower:
  "(map_of es p = None \<longrightarrow>
      (\<exists>es'. handle_message clk n (fetchingKeepMessage p w) es = Inr (es', Suc n, [ChanClose w])
         \<and> map_of es' p
            = Some \<lparr>info = \<lparr>path = p, count = 0, lastFetched = clk n, fetching = True\<rparr>,
                    waiters = []\<rparr>
         \<and> (\<forall>q. q \<noteq> p \<longrightarrow> map_of es' q = map_of es q)))
   \<and> (\<forall>e. map_of es p = Some e \<and> \<not> fetching (info e) \<longrightarrow>
      (\<exists>es'. handle_message clk n (fetchingKeepMessage p w) es = Inr (es', n, [ChanClose w])
         \<and> map_of es' p = Some (e\<lparr>info := (info e)\<lparr>fetching := True\<rparr>\<rparr>)
         \<and> (\<forall>q. q \<noteq> p \<longrightarrow> map_of es' q = map_of es q)))
   \<and> (\<forall>e. map_of es p = Some e \<and> fetching (info e) \<longrightarrow>
      (\<exists>es'. handle_message clk n (fetchingKeepMessage p w) es = Inr (es', n, [])
         \<and> map_of es' p = Some (e\<lparr>waiters := waiters e @ [w]\<rparr>)
         \<and> (\<forall>q. q \<noteq> p \<longrightarrow> map_of es' q = map_of es q)))"
  by (simp add: handle_message_def lookup_entry_def new_entry_def map_of_update_same
      map_of_update_other)

theorem fetching_message_leader_or_follower_witness:
  "(\<exists>es'. handle_message (\<lambda>n. 10 + int n) 4 (fetchingKeepMessage ''/a'' 9) follower_table
             = Inr (es', 4, [])
          \<and> map_of es' ''/a''
             = Some \<lparr>info = \<lparr>path = ''/a'', count = 1, lastFetched = 5, fetching = True\<rparr>,
                     waiters = [2, 3, 9]\<rparr>)
   \<and> (\<exists>es'. handle_message (\<lambda>n. 10 + int n) 4 (fetchingKeepMessage ''/b'' 7) follower_table
             = Inr (es', 5, [ChanClose 7])
          \<and> map_of es' ''/b''
             = Some \<lparr>info = \<lparr>path = ''/b'', count = 0, lastFetched = 14, fetching = True\<rparr>,
                     waiters = []\<rparr>
          \<and> map_of es' ''/a'' = Some follower_entry)
   \<and> (\<exists>es'. handle_message (\<lambda>n. 10 + int n) 4 (fetchingKeepMessage ''/a'' 8) boundary_table
             = Inr (es', 4, [ChanClose 8])
          \<and> map_of es' ''/a''
             = Some \<lparr>info = \<lparr>path = ''/a'', count = 0, lastFetched = 0, fetching = True\<rparr>,
                     waiters = []\<rparr>)"
proof -
  have a: "map_of follower_table ''/a'' = Some follower_entry" "fetching (info follower_entry)"
    by (simp_all add: follower_table_def follower_entry_def)
  have b: "map_of follower_table ''/b'' = None" by (simp add: follower_table_def)
  have c: "map_of boundary_table ''/a'' = Some (new_entry ''/a'' 0)"
    "\<not> fetching (info (new_entry ''/a'' 0))"
    by (simp_all add: boundary_table_def new_entry_def)
  from fetching_message_leader_or_follower [of follower_table "''/a''" "\<lambda>n. 10 + int n" 4 9] a
  have 1: "\<exists>es'. handle_message (\<lambda>n. 10 + int n) 4 (fetchingKeepMessage ''/a'' 9) follower_table
             = Inr (es', 4, [])
          \<and> map_of es' ''/a''
             = Some \<lparr>info = \<lparr>path = ''/a'', count = 1, lastFetched = 5, fetching = True\<rparr>,
                     waiters = [2, 3, 9]\<rparr>"
    by (auto simp add: follower_entry_def)
  from fetching_message_leader_or_follower [of follower_table "''/b''" "\<lambda>n. 10 + int n" 4 7] a b
  have 2: "\<exists>es'. handle_message (\<lambda>n. 10 + int n) 4 (fetchingKeepMessage ''/b'' 7) follower_table
             = Inr (es', 5, [ChanClose 7])
          \<and> map_of es' ''/b''
             = Some \<lparr>info = \<lparr>path = ''/b'', count = 0, lastFetched = 14, fetching = True\<rparr>,
                     waiters = []\<rparr>
          \<and> map_of es' ''/a'' = Some follower_entry"
    by auto
  from fetching_message_leader_or_follower [of boundary_table "''/a''" "\<lambda>n. 10 + int n" 4 8] c
  have 3: "\<exists>es'. handle_message (\<lambda>n. 10 + int n) 4 (fetchingKeepMessage ''/a'' 8) boundary_table
             = Inr (es', 4, [ChanClose 8])
          \<and> map_of es' ''/a''
             = Some \<lparr>info = \<lparr>path = ''/a'', count = 0, lastFetched = 0, fetching = True\<rparr>,
                     waiters = []\<rparr>"
    by (auto simp add: new_entry_def)
  from 1 2 3 show ?thesis by blast
qed

text \<open>
  C2. A \<open>fetched(path, data)\<close> message for an entry that is fetching sets
  \<open>lastFetched\<close> to the clock reading made then and \<open>fetching\<close> to false,
  and empties the waiters. With data present the events are one send of those
  bytes on each queued waiter, in queue order; with data absent they are one
  close of each queued waiter. No other entry changes.
\<close>

theorem fetched_message_releases_waiters:
  assumes "map_of es p = Some e" and "fetching (info e)"
  shows "\<exists>es'. handle_message clk n (fetchedKeepMessage p d) es
             = Inr (es', Suc n,
                    case d of Some b \<Rightarrow> map (\<lambda>w. ChanSend w b) (waiters e)
                            | None \<Rightarrow> map ChanClose (waiters e))
          \<and> map_of es' p
             = Some (e\<lparr>info := (info e)\<lparr>lastFetched := clk n, fetching := False\<rparr>,
                       waiters := []\<rparr>)
          \<and> (\<forall>q. q \<noteq> p \<longrightarrow> map_of es' q = map_of es q)"
  using assms
  by (cases d)
    (simp_all add: handle_message_def lookup_entry_def map_of_update_same map_of_update_other
       deliver_def)

theorem fetched_message_releases_waiters_witness:
  "\<exists>es'. handle_message (\<lambda>n. 10 + int n) 4 (fetchedKeepMessage ''/a'' (Some [1, 2, 3]))
            follower_table
             = Inr (es', 5, [ChanSend 2 [1, 2, 3], ChanSend 3 [1, 2, 3]])
          \<and> map_of es' ''/a''
             = Some \<lparr>info = \<lparr>path = ''/a'', count = 1, lastFetched = 14, fetching = False\<rparr>,
                     waiters = []\<rparr>"
  using fetched_message_releases_waiters [of follower_table "''/a''" follower_entry
      "\<lambda>n. 10 + int n" 4 "Some [1, 2, 3]"]
  by (auto simp add: follower_table_def follower_entry_def)

text \<open>
  C3. A \<open>fetched\<close> message for a path whose entry is not fetching, or that has
  no entry yet, makes the actor panic: the message handler fails, the turn of
  the loop fails, and no later input is processed.
\<close>

theorem fetched_while_not_fetching_panics:
  assumes "case map_of (entries (keep st)) p of None \<Rightarrow> True | Some e \<Rightarrow> \<not> fetching (info e)"
  shows "handle_message clk (ticks st) (fetchedKeepMessage p d) (entries (keep st))
           = Inl PanicNotFetching
         \<and> run_step clk (Message (fetchedKeepMessage p d)) st = Panics PanicNotFetching
         \<and> run_loop clk (Message (fetchedKeepMessage p d) # inps) st = Panics PanicNotFetching"
proof -
  have "handle_message clk (ticks st) (fetchedKeepMessage p d) (entries (keep st))
          = Inl PanicNotFetching"
    using assms
    by (auto simp add: handle_message_def lookup_entry_def new_entry_def split: option.splits)
  then show ?thesis by (simp add: run_step_def)
qed

theorem fetched_while_not_fetching_panics_witness:
  "run_loop (\<lambda>n. int n)
      [Message (fetchedKeepMessage ''/never'' None), Message (requestKeepMessage ''/a'')]
      \<lparr>keep = NewKeep, ticks = 0, trace = []\<rparr> = Panics PanicNotFetching"
  using fetched_while_not_fetching_panics [of "\<lparr>keep = NewKeep, ticks = 0, trace = []\<rparr>"
       "''/never''" "\<lambda>n. int n" None "[Message (requestKeepMessage ''/a'')]"]
  by (simp add: NewKeep_def)

section \<open>The fetch executor\<close>

lemma sent_messages_append: "sent_messages (xs @ ys) = sent_messages xs @ sent_messages ys"
  by (induction xs rule: sent_messages.induct) simp_all

lemma fetch_body_sends_nothing: "sent_messages (snd (snd (fetch_body up p rw))) = []"
  by (simp add: fetch_body_def Let_def split: option.splits)

lemma fetch_body_data: "fst (snd (fetch_body up p rw)) = Some b \<longleftrightarrow> copy_succeeds up b"
  by (auto simp add: fetch_body_def copy_succeeds_def Let_def split: option.splits)

text \<open>
  C6. Whatever the upstream does, a call of \<open>fetch\<close> for a path puts exactly
  one message on the actor's channel, a \<open>fetched\<close> message for that path. It
  carries bytes exactly when the copy of the body succeeded, and then the
  buffered bytes; after a request-construction error, a transport error, a
  content type that is not JSON or a copy error it carries no data.
\<close>

theorem fetch_sends_one_fetched_message:
  "\<exists>d. sent_messages (snd (fetch up p rw)) = [fetchedKeepMessage p d]
       \<and> (\<forall>b. d = Some b \<longleftrightarrow> copy_succeeds up b)
       \<and> (newRequestFails up \<longrightarrow> d = None)
       \<and> (doResult up = None \<longrightarrow> d = None)
       \<and> (\<forall>resp. doResult up = Some resp \<and> split_first (contentType resp) \<noteq> ''application/json''
             \<longrightarrow> d = None)
       \<and> (\<forall>resp. doResult up = Some resp \<and> copyFails resp \<longrightarrow> d = None)"
proof -
  obtain err d evs where b: "fetch_body up p rw = (err, d, evs)"
    by (cases "fetch_body up p rw") auto
  have s: "sent_messages evs = []"
    using fetch_body_sends_nothing [of up p rw] b by simp
  have c: "\<And>b. d = Some b \<longleftrightarrow> copy_succeeds up b"
    using fetch_body_data [of up p rw] b by simp
  have "sent_messages (snd (fetch up p rw)) = [fetchedKeepMessage p d]"
    using b s by (simp add: fetch_def sent_messages_append sendFetchedMessage_def)
  moreover have "newRequestFails up \<longrightarrow> d = None"
    using c [of "the d"] by (cases d) (auto simp add: copy_succeeds_def split: option.splits)
  moreover have "doResult up = None \<longrightarrow> d = None"
    using c [of "the d"] by (cases d) (auto simp add: copy_succeeds_def split: option.splits)
  moreover have "\<forall>resp. doResult up = Some resp
        \<and> split_first (contentType resp) \<noteq> ''application/json'' \<longrightarrow> d = None"
    using c [of "the d"] by (cases d) (auto simp add: copy_succeeds_def split: option.splits)
  moreover have "\<forall>resp. doResult up = Some resp \<and> copyFails resp \<longrightarrow> d = None"
    using c [of "the d"] by (cases d) (auto simp add: copy_succeeds_def split: option.splits)
  ultimately show ?thesis using c by (intro exI [of _ d]) simp
qed

theorem fetch_sends_one_fetched_message_witness:
  "sent_messages (snd (fetch html_upstream ''/a'' (Some 3))) = [fetchedKeepMessage ''/a'' None]"
  using fetch_sends_one_fetched_message [of html_upstream "''/a''" "Some 3"]
  by (auto simp add: html_upstream_def split_first_def)

lemma split_first_params:
  "CHR '';'' \<notin> set base \<Longrightarrow> split_first (base @ CHR '';'' # params) = base"
  by (induction base) (auto simp add: split_first_def)

lemma split_first_whole: "CHR '';'' \<notin> set s \<Longrightarrow> split_first s = s"
  by (induction s) (auto simp add: split_first_def)

lemma split_first_shape:
  "split_first s = base \<Longrightarrow>
     CHR '';'' \<notin> set base \<and> (s = base \<or> (\<exists>params. s = base @ CHR '';'' # params))"
proof (induction s arbitrary: base)
  case Nil
  then show ?case by (simp add: split_first_def)
next
  case (Cons c s)
  show ?case
  proof (cases "c = CHR '';''")
    case True
    with Cons.prems show ?thesis by (auto simp add: split_first_def)
  next
    case False
    with Cons.prems obtain b where b: "base = c # b" "split_first s = b"
      by (auto simp add: split_first_def)
    with Cons.IH [of b] False show ?thesis by auto
  qed
qed

lemma split_first_iff:
  "split_first s = base \<longleftrightarrow>
     CHR '';'' \<notin> set base \<and> (s = base \<or> (\<exists>params. s = base @ CHR '';'' # params))"
  using split_first_shape [of s base] split_first_params [of base] split_first_whole [of base]
  by auto

text \<open>
  C8. Once the upstream has answered, the content type counts as JSON exactly
  when the header is \<open>application/json\<close> or \<open>application/json\<close> followed by a
  semicolon and anything. For every other header value \<open>fetch\<close> returns no
  error, writes the status 400 to the response writer if there is one and
  nothing otherwise, and sends the \<open>fetched\<close> message with no data; bytes are
  sent to the actor or to the cache store only under a JSON content type.
\<close>

theorem json_content_type_only:
  assumes "\<not> newRequestFails up" and "doResult up = Some resp"
  shows "(split_first (contentType resp) = ''application/json'' \<longleftrightarrow>
            contentType resp = ''application/json''
            \<or> (\<exists>params. contentType resp = ''application/json'' @ CHR '';'' # params))
       \<and> (split_first (contentType resp) \<noteq> ''application/json'' \<longrightarrow>
            fetch up p rw
            = (None,
               (case rw of
                  None \<Rightarrow> []
                | Some w \<Rightarrow> [HttpError w ''Endpoint does not return JSON'' 400])
               @ [SendMessage (fetchedKeepMessage p None)]))
       \<and> (\<forall>b. SendMessage (fetchedKeepMessage p (Some b)) \<in> set (snd (fetch up p rw))
             \<or> GoCacheSet p b \<in> set (snd (fetch up p rw))
             \<longrightarrow> split_first (contentType resp) = ''application/json'')"
proof -
  have "split_first (contentType resp) = ''application/json'' \<longleftrightarrow>
            contentType resp = ''application/json''
            \<or> (\<exists>params. contentType resp = ''application/json'' @ CHR '';'' # params)"
    by (simp add: split_first_iff)
  moreover have "split_first (contentType resp) \<noteq> ''application/json'' \<longrightarrow>
            fetch up p rw
            = (None,
               (case rw of
                  None \<Rightarrow> []
                | Some w \<Rightarrow> [HttpError w ''Endpoint does not return JSON'' 400])
               @ [SendMessage (fetchedKeepMessage p None)])"
    using assms by (simp add: fetch_def fetch_body_def sendFetchedMessage_def)
  moreover have "\<forall>b. SendMessage (fetchedKeepMessage p (Some b)) \<in> set (snd (fetch up p rw))
             \<or> GoCacheSet p b \<in> set (snd (fetch up p rw))
             \<longrightarrow> split_first (contentType resp) = ''application/json''"
    using assms
    by (auto simp add: fetch_def fetch_body_def sendFetchedMessage_def Let_def
        split: option.splits if_splits)
  ultimately show ?thesis by blast
qed

theorem json_content_type_only_witness:
  "fetch html_upstream ''/a'' (Some 3)
     = (None, [HttpError 3 ''Endpoint does not return JSON'' 400,
               SendMessage (fetchedKeepMessage ''/a'' None)])"
  using json_content_type_only [of html_upstream
     "\<lparr>contentType = ''text/html; charset=utf-8'', body = [1, 2], copyFails = False\<rparr>"
     "''/a''" "Some 3"]
  by (simp add: html_upstream_def split_first_def)

section \<open>The refresh sweep\<close>

text \<open>
  The sweep treats every entry on its own: the table it leaves, read as a
  map, and the fetches it starts do not depend on the order of the visit.
\<close>

lemma fetchExpired_table:
  "fst (fetchExpired now es) = map (\<lambda>(p, e). (p, sweep_entry now e)) es"
proof (induction es)
  case Nil
  then show ?case by simp
next
  case (Cons x es)
  obtain p e where x: "x = (p, e)" by (cases x)
  obtain es' l where r: "fetchExpired now es = (es', l)" by (cases "fetchExpired now es")
  from Cons x r show ?case by (simp add: sweep_entry_def overdue_def mark_fetching_def)
qed

lemma fetchExpired_launched:
  "snd (fetchExpired now es)
     = map (\<lambda>(p, e). GoFetch (path (info e)) None) (filter (\<lambda>(p, e). overdue now e) es)"
proof (induction es)
  case Nil
  then show ?case by simp
next
  case (Cons x es)
  obtain p e where x: "x = (p, e)" by (cases x)
  obtain es' l where r: "fetchExpired now es = (es', l)" by (cases "fetchExpired now es")
  from Cons x r show ?case by (simp add: overdue_def)
qed

lemma map_of_fetchExpired:
  "map_of (fst (fetchExpired now es)) p = map_option (sweep_entry now) (map_of es p)"
  by (induction es) (auto simp add: fetchExpired_table)

lemma fetchExpired_launched_set:
  "set (snd (fetchExpired now es))
     = (\<lambda>(p, e). GoFetch (path (info e)) None) ` {x \<in> set es. overdue now (snd x)}"
  by (auto simp add: fetchExpired_launched)









section \<open>The deadline\<close>

lemma earliest_loop_fst_le: "fst (earliest_loop es (t, x)) \<le> t"
  by (induction es "(t, x)" arbitrary: t x rule: earliest_loop.induct) (auto intro: order_trans less_imp_le)

lemma earliest_loop_lower:
  "(p, e) \<in> set es \<Longrightarrow> \<not> fetching (info e) \<Longrightarrow> fst (earliest_loop es (t, x)) \<le> lastFetched (info e)"
proof (induction es "(t, x)" arbitrary: t x rule: earliest_loop.induct)
  case 1
  then show ?case by simp
next
  case (2 q f es t x)
  then show ?case
    using earliest_loop_fst_le [of es "lastFetched (info f)" True] earliest_loop_fst_le [of es t x]
    by (auto split: if_splits)
qed

lemma earliest_loop_attained:
  "fst (earliest_loop es (t, x)) = t
   \<or> (\<exists>(p, e) \<in> set es. \<not> fetching (info e) \<and> fst (earliest_loop es (t, x)) = lastFetched (info e))"
  by (induction es "(t, x)" arbitrary: t x rule: earliest_loop.induct) (auto split: if_splits)

lemma earliest_loop_expiring:
  "snd (earliest_loop es (t, x)) \<longleftrightarrow> x \<or> (\<exists>(p, e) \<in> set es. \<not> fetching (info e) \<and> lastFetched (info e) < t)"
proof (induction es "(t, x)" arbitrary: t x rule: earliest_loop.induct)
  case 1
  then show ?case by simp
next
  case (2 q f es t x)
  then show ?case by (auto split: if_splits)
qed

lemma shortestTimeout_expiring:
  "snd (shortestTimeout now es)
     \<longleftrightarrow> (\<exists>(p, e) \<in> set es. \<not> fetching (info e) \<and> lastFetched (info e) < now)"
proof -
  obtain m x where l: "earliest_loop es (now, False) = (m, x)"
    by (cases "earliest_loop es (now, False)")
  with earliest_loop_expiring [of es now False] show ?thesis
    by (simp add: shortestTimeout_def)
qed

lemma shortestTimeout_earliest:
  assumes "(p, e) \<in> set es" and "\<not> fetching (info e)" and "lastFetched (info e) < now"
  shows "\<exists>(q, f) \<in> set es. \<not> fetching (info f)
           \<and> (\<forall>(r, g) \<in> set es. \<not> fetching (info g) \<longrightarrow> lastFetched (info f) \<le> lastFetched (info g))
           \<and> shortestTimeout now es
               = (if lastFetched (info f) + expireDuration < now then 0
                  else lastFetched (info f) + expireDuration - now, True)"
proof -
  obtain m x where l: "earliest_loop es (now, False) = (m, x)"
    by (cases "earliest_loop es (now, False)")
  from assms earliest_loop_expiring [of es now False] l have x: "x" by auto
  from earliest_loop_lower [OF assms(1,2), of now False] l assms(3) have "m \<noteq> now" by simp
  with earliest_loop_attained [of es now False] l
  obtain q f where f: "(q, f) \<in> set es" "\<not> fetching (info f)" "m = lastFetched (info f)"
    by auto
  have low: "\<forall>(r, g) \<in> set es. \<not> fetching (info g) \<longrightarrow> lastFetched (info f) \<le> lastFetched (info g)"
    using earliest_loop_lower [of _ _ es now False] l f(3) by auto
  have "shortestTimeout now es
               = (if lastFetched (info f) + expireDuration < now then 0
                  else lastFetched (info f) + expireDuration - now, True)"
    using l x f(3) by (simp add: shortestTimeout_def)
  with f(1,2) low show ?thesis by blast
qed

text \<open>The timeout depends on the set of entries only, not on the order of the visit.\<close>

lemma earliest_loop_le_set:
  assumes "set es \<subseteq> set es'"
  shows "fst (earliest_loop es' (t, x')) \<le> fst (earliest_loop es (t, x))"
proof -
  from earliest_loop_attained [of es t x]
  show ?thesis
  proof
    assume "fst (earliest_loop es (t, x)) = t"
    with earliest_loop_fst_le [of es' t x'] show ?thesis by simp
  next
    assume "\<exists>(p, e) \<in> set es. \<not> fetching (info e)
        \<and> fst (earliest_loop es (t, x)) = lastFetched (info e)"
    then obtain p e where e: "(p, e) \<in> set es" "\<not> fetching (info e)"
      "fst (earliest_loop es (t, x)) = lastFetched (info e)" by auto
    from e(1) assms have "(p, e) \<in> set es'" by auto
    from earliest_loop_lower [OF this e(2), of t x'] e(3) show ?thesis by simp
  qed
qed

lemma shortestTimeout_set:
  assumes "set es = set es'"
  shows "shortestTimeout now es = shortestTimeout now es'"
proof -
  obtain m x where l: "earliest_loop es (now, False) = (m, x)"
    by (cases "earliest_loop es (now, False)")
  obtain m' x' where l': "earliest_loop es' (now, False) = (m', x')"
    by (cases "earliest_loop es' (now, False)")
  from earliest_loop_le_set [of es es' now False False] earliest_loop_le_set [of es' es now False False]
    assms l l'
  have "m = m'" by simp
  moreover from earliest_loop_expiring [of es now False] earliest_loop_expiring [of es' now False]
    assms l l'
  have "x = x'" by simp
  ultimately show ?thesis using l l' by (simp add: shortestTimeout_def)
qed

lemma serviceLoop_timer:
  assumes "serviceLoop clk n es tr = Some r"
  shows "case r of (es', t, n', tr') \<Rightarrow>
           2 \<le> n' \<and>
           (case shortestTimeout (clk (n' - 1)) es' of (d, expiring) \<Rightarrow>
              t = (if expiring then Some d else None) \<and> (expiring \<longrightarrow> 0 < d))"
proof (rule serviceLoop.raw_induct
    [where P = "\<lambda>clk n es tr r. case r of (es', t, n', tr') \<Rightarrow>
           2 \<le> n' \<and>
           (case shortestTimeout (clk (n' - 1)) es' of (d, expiring) \<Rightarrow>
              t = (if expiring then Some d else None) \<and> (expiring \<longrightarrow> 0 < d))",
      OF _ assms])
  fix loop :: "clock \<Rightarrow> nat \<Rightarrow> table \<Rightarrow> event list
      \<Rightarrow> (table \<times> duration option \<times> nat \<times> event list) option"
  fix clk n es tr r
  assume IH: "\<And>clk n es tr r. loop clk n es tr = Some r \<Longrightarrow>
      (case r of (es', t, n', tr') \<Rightarrow>
           2 \<le> n' \<and>
           (case shortestTimeout (clk (n' - 1)) es' of (d, expiring) \<Rightarrow>
              t = (if expiring then Some d else None) \<and> (expiring \<longrightarrow> 0 < d)))"
  assume body: "(case fetchExpired (clk n) es of
      (es', launched) \<Rightarrow>
        case shortestTimeout (clk (Suc n)) es' of
        (d, expiring) \<Rightarrow>
          if \<not> expiring then Some (es', None, n + 2, tr @ launched)
          else if 0 < d then Some (es', Some d, n + 2, tr @ launched)
               else loop clk (n + 2) es' (tr @ launched)) = Some r"
  obtain es' l where s: "fetchExpired (clk n) es = (es', l)"
    by (cases "fetchExpired (clk n) es")
  obtain d x where t: "shortestTimeout (clk (Suc n)) es' = (d, x)"
    by (cases "shortestTimeout (clk (Suc n)) es'")
  show "case r of (es', t, n', tr') \<Rightarrow>
           2 \<le> n' \<and>
           (case shortestTimeout (clk (n' - 1)) es' of (d, expiring) \<Rightarrow>
              t = (if expiring then Some d else None) \<and> (expiring \<longrightarrow> 0 < d))"
  proof (cases "x \<and> \<not> 0 < d")
    case True
    with body s t have "loop clk (n + 2) es' (tr @ l) = Some r" by simp
    from IH [OF this] show ?thesis .
  next
    case False
    with body s t show ?thesis by (auto split: if_splits)
  qed
qed

section \<open>The scheduler pass\<close>

lemma shortestTimeout_due_overdue_later:
  assumes "shortestTimeout t2 es = (d, True)" and "\<not> 0 < d" and "t2 < t3"
  shows "\<exists>(p, e) \<in> set es. overdue t3 e"
proof -
  obtain m x where l: "earliest_loop es (t2, False) = (m, x)"
    by (cases "earliest_loop es (t2, False)")
  with assms(1) have x: "x" by (auto simp add: shortestTimeout_def split: if_splits)
  from l assms(1,2) have m: "m + expireDuration \<le> t2"
    by (auto simp add: shortestTimeout_def split: if_splits)
  from x l earliest_loop_expiring [of es t2 False]
  obtain p e where e: "(p, e) \<in> set es" "\<not> fetching (info e)" "lastFetched (info e) < t2"
    by auto
  from earliest_loop_lower [OF e(1,2), of t2 False] l e(3) have "m \<noteq> t2" by simp
  with earliest_loop_attained [of es t2 False] l
  obtain q f where f: "(q, f) \<in> set es" "\<not> fetching (info f)" "m = lastFetched (info f)"
    by auto
  with m assms(3) have "overdue t3 f" by (simp add: overdue_def)
  with f(1) show ?thesis by auto
qed

lemma waiting_sweep_le:
  "length (waiting (map (\<lambda>(p, e). (p, sweep_entry now e)) es)) \<le> length (waiting es)"
  by (induction es) (auto simp add: waiting_def sweep_entry_def mark_fetching_def overdue_def)

lemma waiting_sweep_less:
  "\<exists>(p, e) \<in> set es. overdue now e \<Longrightarrow>
     length (waiting (map (\<lambda>(p, e). (p, sweep_entry now e)) es)) < length (waiting es)"
proof (induction es)
  case Nil
  then show ?case by simp
next
  case (Cons x es)
  obtain p e where x: "x = (p, e)" by (cases x)
  show ?case
  proof (cases "overdue now e")
    case True
    with x waiting_sweep_le [of now es] show ?thesis
      by (simp add: waiting_def sweep_entry_def mark_fetching_def overdue_def)
  next
    case False
    with Cons.prems x have "\<exists>(p, e) \<in> set es. overdue now e" by auto
    with Cons.IH x False show ?thesis
      by (simp add: waiting_def sweep_entry_def)
  qed
qed

text \<open>
  Once the clock has passed the deadline of every entry that is not fetching,
  a sweep marks them all and the loop returns; until then every turn of the
  loop makes two more clock readings.
\<close>

lemma waiting_sweep_all:
  assumes "\<forall>(p, e) \<in> set es. \<not> fetching (info e) \<longrightarrow> lastFetched (info e) + expireDuration < now"
  shows "\<forall>(p, e) \<in> set (fst (fetchExpired now es)). fetching (info e)"
  using assms
  by (auto simp add: fetchExpired_table sweep_entry_def overdue_def mark_fetching_def)

lemma shortestTimeout_all_fetching:
  assumes "\<forall>(p, e) \<in> set es. fetching (info e)"
  shows "\<not> snd (shortestTimeout now es)"
  using assms by (auto simp add: shortestTimeout_expiring)

lemma deadlines_bounded_sweep:
  assumes "\<forall>(p, e) \<in> set es. \<not> fetching (info e) \<longrightarrow> lastFetched (info e) + expireDuration < b"
  shows "\<forall>(p, e) \<in> set (fst (fetchExpired now es)).
           \<not> fetching (info e) \<longrightarrow> lastFetched (info e) + expireDuration < b"
  using assms
  by (auto simp add: fetchExpired_table sweep_entry_def overdue_def mark_fetching_def)

lemma serviceLoop_returns_before:
  assumes "mono clk"
  shows "\<forall>(p, e) \<in> set es. \<not> fetching (info e) \<longrightarrow> lastFetched (info e) + expireDuration < clk N
         \<Longrightarrow> serviceLoop clk n es tr \<noteq> None"
proof (induction "N - n" arbitrary: n es tr rule: less_induct)
  case less
  obtain es' l where s: "fetchExpired (clk n) es = (es', l)"
    by (cases "fetchExpired (clk n) es")
  obtain d x where t: "shortestTimeout (clk (Suc n)) es' = (d, x)"
    by (cases "shortestTimeout (clk (Suc n)) es'")
  show ?case
  proof (cases "x \<and> \<not> 0 < d")
    case False
    with s t show ?thesis by (subst serviceLoop.simps) auto
  next
    case True
    have "n < N"
    proof (rule ccontr)
      assume "\<not> n < N"
      then have "clk N \<le> clk n" using monoD [OF assms, of N n] by simp
      with less.prems have "\<forall>(p, e) \<in> set es. \<not> fetching (info e) \<longrightarrow>
          lastFetched (info e) + expireDuration < clk n" by fastforce
      from waiting_sweep_all [OF this] s have "\<forall>(p, e) \<in> set es'. fetching (info e)" by simp
      from shortestTimeout_all_fetching [OF this, of "clk (Suc n)"] t True show False by simp
    qed
    then have m: "N - (n + 2) < N - n" by simp
    from deadlines_bounded_sweep [OF less.prems, of "clk n"] s
    have "\<forall>(p, e) \<in> set es'. \<not> fetching (info e) \<longrightarrow>
        lastFetched (info e) + expireDuration < clk N" by simp
    from less.hyps [OF m this] have "serviceLoop clk (n + 2) es' (tr @ l) \<noteq> None" .
    with s t True show ?thesis by (subst serviceLoop.simps) simp
  qed
qed

lemma deadlines_bounded: "\<exists>b. \<forall>(p, e) \<in> set es. lastFetched (info e) + expireDuration < b"
proof (induction es)
  case Nil
  then show ?case by simp
next
  case (Cons x es)
  then obtain b where b: "\<forall>(p, e) \<in> set es. lastFetched (info e) + expireDuration < b" by blast
  obtain p e where x: "x = (p, e)" by (cases x)
  have "\<forall>(q, f) \<in> set (x # es).
      lastFetched (info f) + expireDuration < max b (lastFetched (info e) + expireDuration + 1)"
    using b x by fastforce
  then show ?case by blast
qed

lemma serviceLoop_returns:
  assumes "mono clk" and "\<forall>t. \<exists>n. t < clk n"
  shows "serviceLoop clk n es tr \<noteq> None"
proof -
  from deadlines_bounded [of es] obtain b
    where b: "\<forall>(p, e) \<in> set es. lastFetched (info e) + expireDuration < b" by blast
  from assms(2) obtain N where "b < clk N" by blast
  with b have "\<forall>(p, e) \<in> set es. \<not> fetching (info e) \<longrightarrow>
      lastFetched (info e) + expireDuration < clk N" by fastforce
  from serviceLoop_returns_before [OF assms(1) this] show ?thesis .
qed

lemma swept_table_refl: "swept_table es es"
  by (simp add: swept_table_def swept_def list_all2_same split: prod.splits)

lemma swept_trans: "swept a b \<Longrightarrow> swept b c \<Longrightarrow> swept a c"
  by (auto simp add: swept_def mark_fetching_def)

lemma swept_table_trans: "swept_table a b \<Longrightarrow> swept_table b c \<Longrightarrow> swept_table a c"
  unfolding swept_table_def
  by (rule list_all2_trans [where ?P1.0 = "\<lambda>(p, e) (p', e'). p' = p \<and> swept e e'"
        and ?P2.0 = "\<lambda>(p, e) (p', e'). p' = p \<and> swept e e'"])
    (auto intro: swept_trans)

lemma swept_table_fetchExpired: "swept_table es (fst (fetchExpired now es))"
  by (induction es)
    (auto simp add: swept_table_def fetchExpired_table sweep_entry_def swept_def overdue_def)

lemma serviceLoop_result:
  assumes "serviceLoop clk n es tr = Some r"
  shows "swept_table es (fst r) \<and> n + 2 \<le> fst (snd (snd r))"
proof (rule serviceLoop.raw_induct
    [where P = "\<lambda>clk n es tr r. swept_table es (fst r) \<and> n + 2 \<le> fst (snd (snd r))",
      OF _ assms])
  fix loop :: "clock \<Rightarrow> nat \<Rightarrow> table \<Rightarrow> event list
      \<Rightarrow> (table \<times> duration option \<times> nat \<times> event list) option"
  fix clk n es tr r
  assume IH: "\<And>clk n es tr r. loop clk n es tr = Some r \<Longrightarrow>
      swept_table es (fst r) \<and> n + 2 \<le> fst (snd (snd r))"
  assume body: "(case fetchExpired (clk n) es of
      (es', launched) \<Rightarrow>
        case shortestTimeout (clk (Suc n)) es' of
        (d, expiring) \<Rightarrow>
          if \<not> expiring then Some (es', None, n + 2, tr @ launched)
          else if 0 < d then Some (es', Some d, n + 2, tr @ launched)
               else loop clk (n + 2) es' (tr @ launched)) = Some r"
  obtain es' l where s: "fetchExpired (clk n) es = (es', l)"
    by (cases "fetchExpired (clk n) es")
  obtain d x where t: "shortestTimeout (clk (Suc n)) es' = (d, x)"
    by (cases "shortestTimeout (clk (Suc n)) es'")
  have es': "swept_table es es'"
    using swept_table_fetchExpired [of es "clk n"] s by simp
  show "swept_table es (fst r) \<and> n + 2 \<le> fst (snd (snd r))"
  proof (cases "x \<and> \<not> 0 < d")
    case True
    with body s t have "loop clk (n + 2) es' (tr @ l) = Some r" by simp
    from IH [OF this] es' show ?thesis by (auto intro: swept_table_trans)
  next
    case False
    with body s t es' show ?thesis by (auto split: if_splits)
  qed
qed

text \<open>
  While the clock stands at the deadline of an entry, the sweep does not mark
  the entry and the deadline computation reports it due: with a clock that
  stays there for ever the loop does not return.
\<close>

lemma frozen_clock_never_returns:
  "serviceLoop (\<lambda>n. 10000000000) n boundary_table tr = None"
proof (cases "serviceLoop (\<lambda>n. 10000000000) n boundary_table tr")
  case None
  then show ?thesis .
next
  case (Some r)
  have "\<not> ((\<lambda>n. 10000000000) = (\<lambda>n::nat. 10000000000::int) \<and> boundary_table = boundary_table)"
  proof (rule serviceLoop.raw_induct
      [where P = "\<lambda>clk n es tr r. \<not> (clk = (\<lambda>n. 10000000000) \<and> es = boundary_table)",
        OF _ Some])
    fix loop :: "clock \<Rightarrow> nat \<Rightarrow> table \<Rightarrow> event list
        \<Rightarrow> (table \<times> duration option \<times> nat \<times> event list) option"
    fix clk n es tr r
    assume IH: "\<And>clk n es tr r. loop clk n es tr = Some r \<Longrightarrow>
        \<not> (clk = (\<lambda>n. 10000000000) \<and> es = boundary_table)"
    assume body: "(case fetchExpired (clk n) es of
        (es', launched) \<Rightarrow>
          case shortestTimeout (clk (Suc n)) es' of
          (d, expiring) \<Rightarrow>
            if \<not> expiring then Some (es', None, n + 2, tr @ launched)
            else if 0 < d then Some (es', Some d, n + 2, tr @ launched)
                 else loop clk (n + 2) es' (tr @ launched)) = Some r"
    show "\<not> (clk = (\<lambda>n. 10000000000) \<and> es = boundary_table)"
    proof
      assume a: "clk = (\<lambda>n. 10000000000) \<and> es = boundary_table"
      with body have "loop clk (n + 2) es (tr @ []) = Some r"
        by (simp add: boundary_table_def new_entry_def expireDuration_def shortestTimeout_def)
      from IH [OF this] a show False by simp
    qed
  qed
  then show ?thesis by simp
qed

lemma serviceTimer_returns:
  assumes "mono clk" and "\<forall>t. \<exists>n. t < clk n"
  shows "serviceTimer clk n k \<noteq> None"
  using serviceLoop_returns [OF assms, of n "entries k" "[]"]
  by (auto simp add: serviceTimer_def split: option.splits)

lemma sweep_after_loop_back:
  assumes "loops_back t2 es" and "t2 < t3"
  shows "length (waiting (fst (fetchExpired t3 es))) < length (waiting es)"
proof -
  obtain d x where t: "shortestTimeout t2 es = (d, x)" by (cases "shortestTimeout t2 es")
  with assms(1) have "x" "\<not> 0 < d" by (simp_all add: loops_back_def)
  with t assms(2) shortestTimeout_due_overdue_later [of t2 es d t3]
  have "\<exists>(p, e) \<in> set es. overdue t3 e" by simp
  from waiting_sweep_less [OF this] show ?thesis by (simp only: fetchExpired_table)
qed

text \<open>
  C5, at a clock that has not advanced since the entry was made. The actor
  starts with an empty table and receives \<open>request("/a")\<close>; the clock reads
  the same value when the entry is created and when the deadline is
  computed. The turn ends with the entry in the table, not fetching, and no
  timer armed: \<^verbatim>\<open>shortestTimeout\<close> only counts an entry whose \<open>lastFetched\<close>
  is strictly before the current time.
\<close>

theorem fresh_entry_left_without_timer:
  "run coarse_clock NewKeep [Message (requestKeepMessage ''/a'')]
     = Done \<lparr>keep = \<lparr>entries = [(''/a'', \<lparr>info = \<lparr>path = ''/a'', count = 1, lastFetched = 0,
                                                   fetching = False\<rparr>,
                                           waiters = []\<rparr>)],
                      timer = None\<rparr>,
             ticks = 5, trace = []\<rparr>
   \<and> shortestTimeout 0 [(''/a'', new_entry ''/a'' 0)] = (expireDuration, False)"
  by (simp add: run_def after_service_def serviceTimer_def serviceLoop.simps NewKeep_def
      shortestTimeout_def run_step_def handle_message_def lookup_entry_def new_entry_def
      coarse_clock_def expireDuration_def)

text \<open>
  C7, as the specification has it, fails for an iteration whose two clock
  readings lie on either side of a deadline. The sweep reads the clock one
  microsecond after the deadline of \<open>/a\<close>, which a leader is fetching, and
  four microseconds before the deadline of \<open>/b\<close>; the deadline computation
  reads it twenty microseconds later. The iteration arms no timer, finds
  \<open>/b\<close> due, and has marked nothing.
\<close>

theorem iteration_without_progress:
  "\<not> iteration_progress 10000001000 10000020000 two_entry_table"
  by (simp add: iteration_progress_def two_entry_table_def shortestTimeout_def expireDuration_def
      waiting_def)

text \<open>One iteration of the loop, as \<^verbatim>\<open>serviceTimer\<close> writes it.\<close>

lemma serviceLoop_iteration:
  "case fetchExpired (clk m) es of (es', launched) \<Rightarrow>
     (case shortestTimeout (clk (Suc m)) es' of (d, expiring) \<Rightarrow>
        (expiring \<and> 0 < d
           \<and> serviceLoop clk m es tr = Some (es', Some d, m + 2, tr @ launched))
        \<or> (\<not> expiring
           \<and> serviceLoop clk m es tr = Some (es', None, m + 2, tr @ launched))
        \<or> (loops_back (clk (Suc m)) es'
           \<and> serviceLoop clk m es tr = serviceLoop clk (m + 2) es' (tr @ launched)))"
proof -
  obtain es' l where s: "fetchExpired (clk m) es = (es', l)"
    by (cases "fetchExpired (clk m) es")
  obtain d x where t: "shortestTimeout (clk (Suc m)) es' = (d, x)"
    by (cases "shortestTimeout (clk (Suc m)) es'")
  have "serviceLoop clk m es tr =
      (if \<not> x then Some (es', None, m + 2, tr @ l)
       else if 0 < d then Some (es', Some d, m + 2, tr @ l)
       else serviceLoop clk (m + 2) es' (tr @ l))"
    using s t by (subst serviceLoop.simps) simp
  with s t show ?thesis by (auto simp add: loops_back_def)
qed

text \<open>
  C7, amended. When the clock never runs backwards and passes every value in
  the end, the loop of the scheduler pass returns, and so does
  \<^verbatim>\<open>serviceTimer\<close>. Every iteration either arms a future timer and
  returns, or returns with no timer because the deadline computation reports
  nothing expiring, or loops back. An iteration may mark nothing, but
  whenever the loop goes round again and the next sweep reads a later clock
  than the deadline computation did, that sweep marks at least one more
  entry fetching: it leaves fewer entries not fetching than it found.
\<close>

theorem scheduler_pass_returns:
  assumes "mono clk" and "\<forall>t. \<exists>n. t < clk n"
  shows "(\<exists>r. serviceLoop clk n es tr = Some r)
       \<and> (\<exists>r. serviceTimer clk n k = Some r)
       \<and> (case fetchExpired (clk n) es of (es', launched) \<Rightarrow>
            (case shortestTimeout (clk (Suc n)) es' of (d, expiring) \<Rightarrow>
               (expiring \<and> 0 < d
                  \<and> serviceLoop clk n es tr = Some (es', Some d, n + 2, tr @ launched))
               \<or> (\<not> expiring
                  \<and> serviceLoop clk n es tr = Some (es', None, n + 2, tr @ launched))
               \<or> (loops_back (clk (Suc n)) es'
                  \<and> serviceLoop clk n es tr = serviceLoop clk (n + 2) es' (tr @ launched))))
       \<and> (\<forall>t2 t3 es'. loops_back t2 es' \<and> t2 < t3 \<longrightarrow>
             length (waiting (fst (fetchExpired t3 es'))) < length (waiting es'))"
proof -
  have "\<forall>t2 t3 es'. loops_back t2 es' \<and> t2 < t3 \<longrightarrow>
             length (waiting (fst (fetchExpired t3 es'))) < length (waiting es')"
    using sweep_after_loop_back by blast
  with serviceLoop_returns [OF assms, of n es tr] serviceTimer_returns [OF assms, of n k]
    serviceLoop_iteration [of clk n es tr]
  show ?thesis by auto
qed

lemma run_armed:
  "run deadline_clock NewKeep [Message (requestKeepMessage ''/a'')]
     = Done \<lparr>keep = \<lparr>entries = armed_table, timer = Some 9999998000\<rparr>, ticks = 5, trace = []\<rparr>"
  by (simp add: run_def after_service_def serviceTimer_def serviceLoop.simps NewKeep_def
      shortestTimeout_def run_step_def handle_message_def lookup_entry_def new_entry_def
      deadline_clock_def expireDuration_def armed_table_def)

lemma run_step_timer_fired:
  "run_step deadline_clock TimerFired
      \<lparr>keep = \<lparr>entries = armed_table, timer = Some 9999998000\<rparr>, ticks = 5, trace = []\<rparr>
     = Done \<lparr>keep = \<lparr>entries = marked_table, timer = None\<rparr>, ticks = 9,
             trace = [GoFetch ''/a'' None]\<rparr>"
  by (simp add: after_service_def serviceTimer_def serviceLoop.simps
      shortestTimeout_def run_step_def
      deadline_clock_def expireDuration_def armed_table_def marked_table_def)

theorem scheduler_pass_returns_witness:
  "mono deadline_clock \<and> (\<forall>t. \<exists>n. t < deadline_clock n)
   \<and> run deadline_clock NewKeep [Message (requestKeepMessage ''/a'')]
       = Done \<lparr>keep = \<lparr>entries = armed_table, timer = Some 9999998000\<rparr>, ticks = 5, trace = []\<rparr>
   \<and> run_step deadline_clock TimerFired
        \<lparr>keep = \<lparr>entries = armed_table, timer = Some 9999998000\<rparr>, ticks = 5, trace = []\<rparr>
       = Done \<lparr>keep = \<lparr>entries = marked_table, timer = None\<rparr>, ticks = 9,
               trace = [GoFetch ''/a'' None]\<rparr>
   \<and> fetchExpired (deadline_clock 5) armed_table = (armed_table, [])
   \<and> shortestTimeout (deadline_clock 6) armed_table = (0, True)
   \<and> loops_back (deadline_clock 6) armed_table
   \<and> serviceLoop deadline_clock 5 armed_table [] = serviceLoop deadline_clock 7 armed_table []
   \<and> deadline_clock 6 < deadline_clock 7
   \<and> length (waiting (fst (fetchExpired (deadline_clock 7) armed_table)))
       < length (waiting armed_table)
   \<and> serviceLoop deadline_clock 5 armed_table [] = Some (marked_table, None, 9, [GoFetch ''/a'' None])
   \<and> serviceTimer deadline_clock 5 \<lparr>entries = armed_table, timer = None\<rparr>
       = Some (\<lparr>entries = marked_table, timer = None\<rparr>, 9, [GoFetch ''/a'' None])"
proof -
  have m: "mono deadline_clock" by (auto simp add: mono_def deadline_clock_def)
  have u: "\<forall>t. \<exists>n. t < deadline_clock n"
  proof
    fix t :: int
    have "t < deadline_clock (nat t + 5)" by (simp add: deadline_clock_def)
    then show "\<exists>n. t < deadline_clock n" ..
  qed
  note t = scheduler_pass_returns [OF m u, of 5 armed_table "[]"
      "\<lparr>entries = armed_table, timer = None\<rparr>"]
  have s: "fetchExpired (deadline_clock 5) armed_table = (armed_table, [])"
    by (simp add: deadline_clock_def armed_table_def expireDuration_def)
  have d: "shortestTimeout (deadline_clock 6) armed_table = (0, True)"
    by (simp add: deadline_clock_def armed_table_def expireDuration_def shortestTimeout_def)
  from t s d have lb: "loops_back (deadline_clock 6) armed_table"
    and eq: "serviceLoop deadline_clock 5 armed_table [] = serviceLoop deadline_clock 7 armed_table []"
    by simp_all
  have lt: "deadline_clock 6 < deadline_clock 7" by (simp add: deadline_clock_def)
  from t lb lt have pr: "length (waiting (fst (fetchExpired (deadline_clock 7) armed_table)))
       < length (waiting armed_table)" by blast
  from t obtain r where r: "serviceLoop deadline_clock 5 armed_table [] = Some r" by blast
  have v: "serviceLoop deadline_clock 7 armed_table [] = Some (marked_table, None, 9, [GoFetch ''/a'' None])"
    by (simp add: serviceLoop.simps shortestTimeout_def deadline_clock_def expireDuration_def
        armed_table_def marked_table_def)
  with eq have v5: "serviceLoop deadline_clock 5 armed_table []
      = Some (marked_table, None, 9, [GoFetch ''/a'' None])" by simp
  then have st: "serviceTimer deadline_clock 5 \<lparr>entries = armed_table, timer = None\<rparr>
       = Some (\<lparr>entries = marked_table, timer = None\<rparr>, 9, [GoFetch ''/a'' None])"
    by (simp add: serviceTimer_def)
  from m u run_armed run_step_timer_fired s d lb eq lt pr v5 st show ?thesis by blast
qed

section \<open>Runs of the actor\<close>

lemma set_update_cases:
  "(q, f) \<in> set (AList.update p v es) \<Longrightarrow> (q, f) = (p, v) \<or> (q, f) \<in> set es"
  by (induction es) (auto split: if_splits)

lemma swept_fields:
  "swept e e' \<Longrightarrow>
     lastFetched (info e') = lastFetched (info e) \<and> waiters e' = waiters e
     \<and> path (info e') = path (info e) \<and> count (info e') = count (info e)
     \<and> (fetching (info e) \<longrightarrow> fetching (info e'))"
  by (auto simp add: swept_def mark_fetching_def)

lemma swept_table_set:
  "swept_table es es' \<Longrightarrow> (q, f') \<in> set es' \<Longrightarrow> \<exists>f. (q, f) \<in> set es \<and> swept f f'"
  unfolding swept_table_def
  by (induction es es' rule: list_all2_induct) auto

lemma swept_table_map_of:
  "swept_table es es' \<Longrightarrow> map_of es q = Some e \<Longrightarrow> \<exists>e'. map_of es' q = Some e' \<and> swept e e'"
  unfolding swept_table_def
  by (induction es es' rule: list_all2_induct) (auto split: if_splits)

lemma swept_table_map_of_None:
  "swept_table es es' \<Longrightarrow> map_of es q = None \<Longrightarrow> map_of es' q = None"
  unfolding swept_table_def
  by (induction es es' rule: list_all2_induct) (auto split: if_splits)

lemma serviceTimer_result:
  assumes "serviceTimer clk n k = Some (k', n', tr)"
  shows "swept_table (entries k) (entries k') \<and> n \<le> n'"
proof (cases "timer k")
  case None
  with assms obtain r where r: "serviceLoop clk n (entries k) [] = Some r"
    and k': "entries k' = fst r" "n' = fst (snd (snd r))"
    by (auto simp add: serviceTimer_def split: option.splits)
  from serviceLoop_result [OF r] k' show ?thesis by simp
next
  case (Some d)
  with assms show ?thesis by (auto simp add: serviceTimer_def swept_table_refl)
qed


lemma lookup_entry_inv:
  assumes "waiters_inv es" and "lookup_entry clk n p es = (e, n1)"
  shows "\<not> fetching (info e) \<longrightarrow> waiters e = []"
proof (cases "map_of es p")
  case None
  with assms(2) show ?thesis by (auto simp add: lookup_entry_def new_entry_def)
next
  case (Some f)
  then have "(p, f) \<in> set es" by (rule map_of_SomeD)
  with assms Some show ?thesis by (auto simp add: lookup_entry_def waiters_inv_def)
qed

lemma waiters_inv_update:
  assumes "waiters_inv es" and "\<not> fetching (info v) \<longrightarrow> waiters v = []"
  shows "waiters_inv (AList.update p v es)"
  using assms set_update_cases [of _ _ p v es] by (fastforce simp add: waiters_inv_def)

lemma handle_message_waiters_inv:
  assumes "waiters_inv es" and "handle_message clk n msg es = Inr (es', n', evs)"
  shows "waiters_inv es'"
proof -
  obtain e n1 where l: "lookup_entry clk n (Path msg) es = (e, n1)"
    by (cases "lookup_entry clk n (Path msg) es")
  note e = lookup_entry_inv [OF assms(1) l]
  show ?thesis
  proof (cases msg)
    case (requestKeepMessage p)
    with assms(2) l have "es' = AList.update p (e\<lparr>info := (info e)\<lparr>count := count (info e) + 1\<rparr>\<rparr>) es"
      by (simp add: handle_message_def)
    with e assms(1) show ?thesis by (simp add: waiters_inv_update)
  next
    case (fetchingKeepMessage p w)
    with assms(2) l have "es' = AList.update p
        (if fetching (info e) then e\<lparr>waiters := waiters e @ [w]\<rparr>
         else e\<lparr>info := (info e)\<lparr>fetching := True\<rparr>\<rparr>) es"
      by (simp add: handle_message_def split: if_splits)
    with e assms(1) show ?thesis by (simp add: waiters_inv_update)
  next
    case (fetchedKeepMessage p d)
    with assms(2) l have "es' = AList.update p
        (e\<lparr>info := (info e)\<lparr>lastFetched := clk n1, fetching := False\<rparr>, waiters := []\<rparr>) es"
      by (simp add: handle_message_def split: if_splits)
    with assms(1) show ?thesis by (simp add: waiters_inv_update)
  qed
qed

lemma swept_table_waiters_inv:
  assumes "waiters_inv es" and "swept_table es es'"
  shows "waiters_inv es'"
  unfolding waiters_inv_def
proof (clarify)
  fix q f' assume f': "(q, f') \<in> set es'" "\<not> fetching (info f')"
  from swept_table_set [OF assms(2) f'(1)] obtain f where f: "(q, f) \<in> set es" "swept f f'"
    by auto
  from swept_fields [OF f(2)] f'(2) have "\<not> fetching (info f)" "waiters f' = waiters f" by auto
  with assms(1) f(1) show "waiters f' = []" by (auto simp add: waiters_inv_def)
qed

lemma after_service_entries:
  assumes "after_service clk n k tr = Done st'"
  shows "swept_table (entries k) (entries (keep st')) \<and> n \<le> ticks st'"
proof -
  from assms obtain k' n' l where r: "serviceTimer clk n k = Some (k', n', l)"
    and st': "st' = \<lparr>keep = k', ticks = n', trace = tr @ l\<rparr>"
    by (auto simp add: after_service_def split: option.splits)
  from serviceTimer_result [OF r] st' show ?thesis by simp
qed

lemma run_step_waiters_inv:
  assumes "waiters_inv (entries (keep st))" and "run_step clk inp st = Done st'"
  shows "waiters_inv (entries (keep st'))"
proof (cases inp)
  case (Message msg)
  with assms(2) obtain es' n' evs
    where h: "handle_message clk (ticks st) msg (entries (keep st)) = Inr (es', n', evs)"
      and a: "after_service clk n' ((keep st)\<lparr>entries := es'\<rparr>) (trace st @ evs) = Done st'"
    by (auto simp add: run_step_def split: sum.splits)
  from handle_message_waiters_inv [OF assms(1) h] have "waiters_inv es'" .
  with after_service_entries [OF a] show ?thesis by (auto intro: swept_table_waiters_inv)
next
  case TimerFired
  with assms(2) have a: "after_service clk (ticks st) ((keep st)\<lparr>timer := None\<rparr>) (trace st) = Done st'"
    by (auto simp add: run_step_def split: option.splits)
  with after_service_entries [OF a] assms(1) show ?thesis
    by (auto intro: swept_table_waiters_inv)
qed

lemma run_loop_waiters_inv:
  "waiters_inv (entries (keep st)) \<Longrightarrow> run_loop clk inps st = Done st' \<Longrightarrow>
     waiters_inv (entries (keep st'))"
proof (induction inps arbitrary: st)
  case Nil
  then show ?case by simp
next
  case (Cons inp inps)
  from Cons.prems(2) obtain st1 where s: "run_step clk inp st = Done st1"
    and r: "run_loop clk inps st1 = Done st'"
    by (auto split: outcome.splits)
  from run_step_waiters_inv [OF Cons.prems(1) s] Cons.IH r show ?case by simp
qed

lemma run_waiters_inv:
  assumes "waiters_inv (entries k)" and "run clk k inps = Done st'"
  shows "waiters_inv (entries (keep st'))"
proof -
  from assms(2) obtain st where a: "after_service clk 0 k [] = Done st"
    and r: "run_loop clk inps st = Done st'"
    by (auto simp add: run_def split: outcome.splits)
  from after_service_entries [OF a] assms(1) have "waiters_inv (entries (keep st))"
    by (auto intro: swept_table_waiters_inv)
  from run_loop_waiters_inv [OF this r] show ?thesis .
qed


lemma handle_request_keeps_waiters:
  assumes "handle_message clk n (requestKeepMessage p) es = Inr (es', n', evs)"
    and "map_of es q = Some e"
  shows "\<exists>e'. map_of es' q = Some e' \<and> waiters e' = waiters e
            \<and> fetching (info e') = fetching (info e)"
  using assms
  by (cases "q = p")
    (auto simp add: handle_message_def lookup_entry_def map_of_update_same map_of_update_other
       split: option.splits)

lemma read_before_mono:
  "mono clk \<Longrightarrow> n \<le> n' \<Longrightarrow> read_before clk n es \<Longrightarrow> read_before clk n' es"
  by (fastforce simp add: read_before_def dest: monoD [of clk n n'])

lemma read_before_update:
  assumes "read_before clk n es" and "lastFetched (info v) \<le> clk n"
  shows "read_before clk n (AList.update p v es)"
  using assms set_update_cases [of _ _ p v es] by (fastforce simp add: read_before_def)

lemma lookup_entry_read_before:
  assumes "mono clk" and "read_before clk n es" and "lookup_entry clk n p es = (e, n1)"
  shows "n \<le> n1 \<and> n1 \<le> Suc n \<and> lastFetched (info e) \<le> clk n1"
proof (cases "map_of es p")
  case None
  with assms(3) have "n1 = Suc n" "lastFetched (info e) = clk n"
    by (auto simp add: lookup_entry_def new_entry_def)
  with monoD [OF assms(1), of n "Suc n"] show ?thesis by simp
next
  case (Some f)
  then have "(p, f) \<in> set es" by (rule map_of_SomeD)
  with assms(2,3) Some show ?thesis by (auto simp add: lookup_entry_def read_before_def)
qed

lemma handle_message_lastFetched:
  assumes "mono clk" and "read_before clk n es"
    and "handle_message clk n msg es = Inr (es', n', evs)"
  shows "n \<le> n' \<and> read_before clk n' es'
         \<and> (\<forall>q e. map_of es q = Some e \<longrightarrow>
               (\<exists>e'. map_of es' q = Some e'
                  \<and> lastFetched (info e) \<le> lastFetched (info e')
                  \<and> (lastFetched (info e') \<noteq> lastFetched (info e)
                       \<longrightarrow> (\<exists>d. msg = fetchedKeepMessage q d))))"
proof -
  obtain e0 n1 where l: "lookup_entry clk n (Path msg) es = (e0, n1)"
    by (cases "lookup_entry clk n (Path msg) es")
  note b = lookup_entry_read_before [OF assms(1,2) l]
  from b have rb1: "read_before clk n1 es" using read_before_mono [OF assms(1) _ assms(2)] by simp
  have same: "map_of es q = Some e \<Longrightarrow> q = Path msg \<Longrightarrow> e0 = e" for q e
    using l by (simp add: lookup_entry_def)
  show ?thesis
  proof (cases msg)
    case (requestKeepMessage p)
    with assms(3) l have r: "es' = AList.update p (e0\<lparr>info := (info e0)\<lparr>count := count (info e0) + 1\<rparr>\<rparr>) es"
      "n' = n1" by (simp_all add: handle_message_def)
    have "read_before clk n' es'" using r rb1 b by (simp add: read_before_update)
    moreover have "\<exists>e'. map_of es' q = Some e'
                  \<and> lastFetched (info e) \<le> lastFetched (info e')
                  \<and> (lastFetched (info e') \<noteq> lastFetched (info e)
                       \<longrightarrow> (\<exists>d. msg = fetchedKeepMessage q d))" if "map_of es q = Some e" for q e
      using that same [OF that] r requestKeepMessage
      by (cases "q = p") (simp_all add: map_of_update_same map_of_update_other)
    ultimately show ?thesis using b r by simp
  next
    case (fetchingKeepMessage p w)
    with assms(3) l have r: "es' = AList.update p
        (if fetching (info e0) then e0\<lparr>waiters := waiters e0 @ [w]\<rparr>
         else e0\<lparr>info := (info e0)\<lparr>fetching := True\<rparr>\<rparr>) es" "n' = n1"
      by (simp_all add: handle_message_def split: if_splits)
    have "read_before clk n' es'" using r rb1 b by (simp add: read_before_update)
    moreover have "\<exists>e'. map_of es' q = Some e'
                  \<and> lastFetched (info e) \<le> lastFetched (info e')
                  \<and> (lastFetched (info e') \<noteq> lastFetched (info e)
                       \<longrightarrow> (\<exists>d. msg = fetchedKeepMessage q d))" if "map_of es q = Some e" for q e
      using that same [OF that] r fetchingKeepMessage
      by (cases "q = p") (simp_all add: map_of_update_same map_of_update_other)
    ultimately show ?thesis using b r by simp
  next
    case (fetchedKeepMessage p d)
    with assms(3) l have r: "es' = AList.update p
        (e0\<lparr>info := (info e0)\<lparr>lastFetched := clk n1, fetching := False\<rparr>, waiters := []\<rparr>) es"
      "n' = Suc n1"
      by (simp_all add: handle_message_def split: if_splits)
    have rb2: "read_before clk n' es" using read_before_mono [OF assms(1) _ rb1, of n'] r by simp
    have "clk n1 \<le> clk n'" using monoD [OF assms(1), of n1 n'] r by simp
    with rb2 r have "read_before clk n' es'" by (simp add: read_before_update)
    moreover have "\<exists>e'. map_of es' q = Some e'
                  \<and> lastFetched (info e) \<le> lastFetched (info e')
                  \<and> (lastFetched (info e') \<noteq> lastFetched (info e)
                       \<longrightarrow> (\<exists>d. msg = fetchedKeepMessage q d))" if "map_of es q = Some e" for q e
      using that same [OF that] r fetchedKeepMessage b
      by (cases "q = p") (simp_all add: map_of_update_same map_of_update_other)
    ultimately show ?thesis using b r by simp
  qed
qed

lemma swept_table_read_before:
  assumes "read_before clk n es" and "swept_table es es'"
  shows "read_before clk n es'"
  unfolding read_before_def
proof (clarify)
  fix q f' assume f': "(q, f') \<in> set es'"
  from swept_table_set [OF assms(2) f'] obtain f where f: "(q, f) \<in> set es" "swept f f'"
    by auto
  from swept_fields [OF f(2)] assms(1) f(1) show "lastFetched (info f') \<le> clk n"
    by (auto simp add: read_before_def)
qed

lemma lastFetched_advances_swept:
  "swept_table es es' \<Longrightarrow> lastFetched_advances [] es es'"
  using swept_table_map_of [of es es'] swept_fields
  by (fastforce simp add: lastFetched_advances_def)

lemma lastFetched_advances_trans:
  assumes "lastFetched_advances xs a b" and "lastFetched_advances ys b c"
  shows "lastFetched_advances (xs @ ys) a c"
  unfolding lastFetched_advances_def
proof (intro allI impI)
  fix q e assume "map_of a q = Some e"
  from assms(1) [unfolded lastFetched_advances_def, rule_format, OF this]
  obtain e1 where e1: "map_of b q = Some e1"
    "lastFetched (info e) \<le> lastFetched (info e1)"
    "lastFetched (info e1) \<noteq> lastFetched (info e)
       \<longrightarrow> (\<exists>d. Message (fetchedKeepMessage q d) \<in> set xs)"
    by blast
  from assms(2) [unfolded lastFetched_advances_def, rule_format, OF e1(1)]
  obtain e2 where e2: "map_of c q = Some e2"
    "lastFetched (info e1) \<le> lastFetched (info e2)"
    "lastFetched (info e2) \<noteq> lastFetched (info e1)
       \<longrightarrow> (\<exists>d. Message (fetchedKeepMessage q d) \<in> set ys)"
    by blast
  from e1 e2 show "\<exists>e'. map_of c q = Some e'
           \<and> lastFetched (info e) \<le> lastFetched (info e')
           \<and> (lastFetched (info e') \<noteq> lastFetched (info e)
                \<longrightarrow> (\<exists>d. Message (fetchedKeepMessage q d) \<in> set (xs @ ys)))"
    by (cases "lastFetched (info e1) = lastFetched (info e)") auto
qed

lemma run_step_lastFetched:
  assumes "mono clk" and "read_before clk (ticks st) (entries (keep st))"
    and "run_step clk inp st = Done st'"
  shows "read_before clk (ticks st') (entries (keep st'))
         \<and> lastFetched_advances [inp] (entries (keep st)) (entries (keep st'))"
proof (cases inp)
  case (Message msg)
  with assms(3) obtain es' n' evs
    where h: "handle_message clk (ticks st) msg (entries (keep st)) = Inr (es', n', evs)"
      and a: "after_service clk n' ((keep st)\<lparr>entries := es'\<rparr>) (trace st @ evs) = Done st'"
    by (auto simp add: run_step_def split: sum.splits)
  note hm = handle_message_lastFetched [OF assms(1,2) h]
  from after_service_entries [OF a] have sw: "swept_table es' (entries (keep st'))"
    and le: "n' \<le> ticks st'" by simp_all
  from hm have "read_before clk n' es'" by simp
  from swept_table_read_before [OF read_before_mono [OF assms(1) le this] sw]
  have "read_before clk (ticks st') (entries (keep st'))" .
  moreover from hm Message have "lastFetched_advances [inp] (entries (keep st)) es'"
    unfolding lastFetched_advances_def by fastforce
  from lastFetched_advances_trans [OF this lastFetched_advances_swept [OF sw]]
  have "lastFetched_advances [inp] (entries (keep st)) (entries (keep st'))" by simp
  ultimately show ?thesis by simp
next
  case TimerFired
  with assms(3) have a: "after_service clk (ticks st) ((keep st)\<lparr>timer := None\<rparr>) (trace st) = Done st'"
    by (auto simp add: run_step_def split: option.splits)
  from after_service_entries [OF a] have sw: "swept_table (entries (keep st)) (entries (keep st'))"
    and le: "ticks st \<le> ticks st'" by simp_all
  from swept_table_read_before [OF read_before_mono [OF assms(1) le assms(2)] sw]
  have "read_before clk (ticks st') (entries (keep st'))" .
  moreover from lastFetched_advances_trans [OF lastFetched_advances_swept [OF sw],
      of "[inp]" "entries (keep st')"] lastFetched_advances_swept [OF swept_table_refl]
  have "lastFetched_advances [inp] (entries (keep st)) (entries (keep st'))"
    by (simp add: lastFetched_advances_def)
  ultimately show ?thesis by simp
qed

lemma run_loop_lastFetched:
  assumes "mono clk"
  shows "read_before clk (ticks st) (entries (keep st)) \<Longrightarrow> run_loop clk inps st = Done st' \<Longrightarrow>
     read_before clk (ticks st') (entries (keep st'))
     \<and> lastFetched_advances inps (entries (keep st)) (entries (keep st'))"
proof (induction inps arbitrary: st)
  case Nil
  then show ?case using lastFetched_advances_swept [OF swept_table_refl] by simp
next
  case (Cons inp inps)
  from Cons.prems(2) obtain st1 where s: "run_step clk inp st = Done st1"
    and r: "run_loop clk inps st1 = Done st'"
    by (auto split: outcome.splits)
  note one = run_step_lastFetched [OF assms Cons.prems(1) s]
  with Cons.IH [of st1] r
  have rest: "read_before clk (ticks st') (entries (keep st'))"
    "lastFetched_advances inps (entries (keep st1)) (entries (keep st'))" by simp_all
  from one lastFetched_advances_trans [of "[inp]" _ _ inps, OF _ rest(2)] rest(1)
  show ?case by simp
qed

lemma run_read_before:
  assumes "mono clk" and "run clk NewKeep inps = Done st"
  shows "read_before clk (ticks st) (entries (keep st))"
proof -
  from assms(2) obtain st0 where a: "after_service clk 0 NewKeep [] = Done st0"
    and r: "run_loop clk inps st0 = Done st"
    by (auto simp add: run_def split: outcome.splits)
  have "read_before clk (ticks st0) (entries NewKeep)" by (simp add: read_before_def NewKeep_def)
  with after_service_entries [OF a] have "read_before clk (ticks st0) (entries (keep st0))"
    by (auto intro: swept_table_read_before)
  from run_loop_lastFetched [OF assms(1) this r] show ?thesis by simp
qed

text \<open>
  C10. An entry that is not fetching has no waiters. This holds of the empty
  table of a new \<open>Keep\<close> and of a freshly made entry, and every message the
  actor handles without panicking preserves it; a \<open>request\<close> message leaves
  the waiters and the flag of every entry as they were. Hence it holds after
  every run of the actor, the scheduler pass included.
\<close>

theorem waiters_empty_unless_fetching:
  "waiters_inv (entries NewKeep)
   \<and> (\<not> fetching (info (new_entry p now)) \<and> waiters (new_entry p now) = [])
   \<and> (waiters_inv es \<and> handle_message clk n msg es = Inr (es', n', evs) \<longrightarrow> waiters_inv es')
   \<and> (\<forall>q e. handle_message clk n (requestKeepMessage p) es = Inr (es', n', evs)
          \<and> map_of es q = Some e \<longrightarrow>
          (\<exists>e'. map_of es' q = Some e' \<and> waiters e' = waiters e
             \<and> fetching (info e') = fetching (info e)))
   \<and> (waiters_inv (entries (keep st)) \<and> run_loop clk inps st = Done st'
        \<longrightarrow> waiters_inv (entries (keep st')))
   \<and> (run clk NewKeep inps = Done st' \<longrightarrow> waiters_inv (entries (keep st')))"
proof -
  have new: "waiters_inv (entries NewKeep)" by (simp add: waiters_inv_def NewKeep_def)
  moreover have "\<not> fetching (info (new_entry p now)) \<and> waiters (new_entry p now) = []"
    by (simp add: new_entry_def)
  moreover have "waiters_inv es \<and> handle_message clk n msg es = Inr (es', n', evs)
      \<longrightarrow> waiters_inv es'"
    using handle_message_waiters_inv by blast
  moreover have "\<forall>q e. handle_message clk n (requestKeepMessage p) es = Inr (es', n', evs)
          \<and> map_of es q = Some e \<longrightarrow>
          (\<exists>e'. map_of es' q = Some e' \<and> waiters e' = waiters e
             \<and> fetching (info e') = fetching (info e))"
    using handle_request_keeps_waiters by blast
  moreover have "waiters_inv (entries (keep st)) \<and> run_loop clk inps st = Done st'
        \<longrightarrow> waiters_inv (entries (keep st'))"
    using run_loop_waiters_inv by blast
  moreover have "run clk NewKeep inps = Done st' \<longrightarrow> waiters_inv (entries (keep st'))"
    using run_waiters_inv [OF new] by blast
  ultimately show ?thesis by blast
qed


lemma run_coalescing: "run fine_clock NewKeep coalescing_inputs = Done coalesced_state"
  by (simp add: run_def after_service_def serviceTimer_def serviceLoop.simps NewKeep_def
      shortestTimeout_def run_step_def handle_message_def lookup_entry_def new_entry_def
      fine_clock_def expireDuration_def coalescing_inputs_def coalesced_state_def deliver_def)

theorem waiters_empty_unless_fetching_witness:
  "run fine_clock NewKeep coalescing_inputs = Done coalesced_state
   \<and> waiters_inv (entries (keep coalesced_state))"
  using waiters_empty_unless_fetching [where clk = fine_clock and inps = coalescing_inputs
      and st' = coalesced_state] run_coalescing
  by simp

text \<open>
  C9. With a clock that never runs backwards, no entry of a state reached
  from a new \<open>Keep\<close> was fetched later than the latest clock reading, and
  from such a state on, whatever inputs the actor processes, every entry is
  still in the table, its \<open>lastFetched\<close> is at least what it was, and it
  differs from what it was only if one of the inputs was a \<open>fetched\<close> message
  for the entry's path.
\<close>

theorem lastFetched_never_decreases:
  assumes "mono clk"
  shows "(run clk NewKeep inps0 = Done st \<longrightarrow> read_before clk (ticks st) (entries (keep st)))
       \<and> (read_before clk (ticks st) (entries (keep st)) \<and> run_loop clk inps st = Done st'
            \<and> map_of (entries (keep st)) p = Some e \<longrightarrow>
          (\<exists>e'. map_of (entries (keep st')) p = Some e'
             \<and> lastFetched (info e) \<le> lastFetched (info e')
             \<and> (lastFetched (info e') \<noteq> lastFetched (info e)
                  \<longrightarrow> (\<exists>d. Message (fetchedKeepMessage p d) \<in> set inps))))"
proof -
  have "run clk NewKeep inps0 = Done st \<longrightarrow> read_before clk (ticks st) (entries (keep st))"
    using run_read_before [OF assms] by blast
  moreover have "\<exists>e'. map_of (entries (keep st')) p = Some e'
             \<and> lastFetched (info e) \<le> lastFetched (info e')
             \<and> (lastFetched (info e') \<noteq> lastFetched (info e)
                  \<longrightarrow> (\<exists>d. Message (fetchedKeepMessage p d) \<in> set inps))"
    if "read_before clk (ticks st) (entries (keep st))" and "run_loop clk inps st = Done st'"
      and "map_of (entries (keep st)) p = Some e"
  proof -
    from run_loop_lastFetched [OF assms that(1,2)]
    have "lastFetched_advances inps (entries (keep st)) (entries (keep st'))" by simp
    from this [unfolded lastFetched_advances_def, rule_format, OF that(3)] show ?thesis .
  qed
  ultimately show ?thesis by blast
qed

lemma run_fetching_state: "run fine_clock NewKeep (take 3 coalescing_inputs) = Done fetching_state"
  by (simp add: run_def after_service_def serviceTimer_def serviceLoop.simps NewKeep_def
      shortestTimeout_def run_step_def handle_message_def lookup_entry_def new_entry_def
      fine_clock_def expireDuration_def coalescing_inputs_def fetching_state_def deliver_def)

lemma run_loop_fetched:
  "run_loop fine_clock [Message (fetchedKeepMessage ''/a'' (Some [1, 2, 3]))] fetching_state
     = Done coalesced_state"
  by (simp add: after_service_def serviceTimer_def
      run_step_def handle_message_def lookup_entry_def
      fine_clock_def coalesced_state_def fetching_state_def deliver_def)

theorem lastFetched_never_decreases_witness:
  "mono fine_clock
   \<and> read_before fine_clock (ticks fetching_state) (entries (keep fetching_state))
   \<and> run_loop fine_clock [Message (fetchedKeepMessage ''/a'' (Some [1, 2, 3]))] fetching_state
       = Done coalesced_state
   \<and> (\<exists>e'. map_of (entries (keep coalesced_state)) ''/a'' = Some e'
          \<and> 2000 \<le> lastFetched (info e'))"
proof -
  have m: "mono fine_clock" by (simp add: mono_def fine_clock_def)
  have e: "map_of (entries (keep fetching_state)) ''/a''
      = Some \<lparr>info = \<lparr>path = ''/a'', count = 1, lastFetched = 2000, fetching = True\<rparr>,
              waiters = [2]\<rparr>"
    by (simp add: fetching_state_def)
  note t = lastFetched_never_decreases [OF m, where ?inps0.0 = "take 3 coalescing_inputs"
      and st = fetching_state and inps = "[Message (fetchedKeepMessage ''/a'' (Some [1, 2, 3]))]"
      and st' = coalesced_state and p = "''/a''"
      and e = "\<lparr>info = \<lparr>path = ''/a'', count = 1, lastFetched = 2000, fetching = True\<rparr>,
                waiters = [2]\<rparr>"]
  from t run_fetching_state
  have rb: "read_before fine_clock (ticks fetching_state) (entries (keep fetching_state))"
    by blast
  with t run_loop_fetched e
  have "\<exists>e'. map_of (entries (keep coalesced_state)) ''/a'' = Some e'
          \<and> 2000 \<le> lastFetched (info e')"
    by fastforce
  with m rb run_loop_fetched show ?thesis by blast
qed

end
